theory Spec2Isabelle
  imports Main
begin

section \<open>The AI state enumeration\<close>

text \<open>
  \<^verbatim>\<open>export const enum AiStateEnum\<close> of \<^verbatim>\<open>ai-state-context.tsx\<close>: six variants, in the
  order of the source.
\<close>

datatype AiState = IDLE | THINKING_SPEAKING | INTERRUPTED | LOADING | LISTENING | WAITING

text \<open>\<^verbatim>\<open>const initialState: AiState = AiStateEnum.LOADING\<close>\<close>

definition initialState :: AiState where
  "initialState = LOADING"

section \<open>The context value\<close>

text \<open>
  The object built by the \<^verbatim>\<open>stateChecks\<close> memo: one boolean per variant, each the
  comparison of \<^verbatim>\<open>aiState\<close> with that variant.
\<close>

record StateChecks =
  isIdle :: bool
  isThinkingSpeaking :: bool
  isInterrupted :: bool
  isLoading :: bool
  isListening :: bool
  isWaiting :: bool

definition stateChecks :: "AiState \<Rightarrow> StateChecks" where
  "stateChecks a =
     \<lparr> isIdle = (a = IDLE),
       isThinkingSpeaking = (a = THINKING_SPEAKING),
       isInterrupted = (a = INTERRUPTED),
       isLoading = (a = LOADING),
       isListening = (a = LISTENING),
       isWaiting = (a = WAITING) \<rparr>"

text \<open>
  \<^verbatim>\<open>AiStateContextType\<close>: the state, and the six checks spread into the same object. The
  two function members \<^verbatim>\<open>setAiState\<close> and \<^verbatim>\<open>resetState\<close> are the operations defined
  below; both are \<^verbatim>\<open>useCallback\<close> values whose dependencies never change, so they are the
  same functions at every render. The field \<open>ctx_aiState\<close> is the member \<^verbatim>\<open>aiState\<close> of
  the source (the name \<open>aiState\<close> is taken by the provider's own state variable).
\<close>

record AiStateContextType = StateChecks +
  ctx_aiState :: AiState

definition contextValue :: "AiState \<Rightarrow> AiStateContextType" where
  "contextValue a =
     (let c = stateChecks a in
      \<lparr> isIdle = isIdle c,
        isThinkingSpeaking = isThinkingSpeaking c,
        isInterrupted = isInterrupted c,
        isLoading = isLoading c,
        isListening = isListening c,
        isWaiting = isWaiting c,
        ctx_aiState = a \<rparr>)"

section \<open>The provider and the event loop it runs on\<close>

text \<open>
  One mounted \<^verbatim>\<open>AiStateProvider\<close> together with the part of the host it uses:
  \<^item> \<open>aiState\<close>: the \<^verbatim>\<open>useState\<close> variable, holding the value most recently passed to
    \<^verbatim>\<open>setAiStateInternal\<close>, which is what the provider renders with;
  \<^item> \<open>timerRef\<close>: \<^verbatim>\<open>timerRef.current\<close>, \<open>None\<close> for \<^verbatim>\<open>null\<close>. A timer handle is an object
    in Node and a positive integer in a browser, so \<^verbatim>\<open>if (timerRef.current)\<close> tests
    exactly for a handle being present;
  \<^item> \<open>now\<close>: the clock, in milliseconds;
  \<^item> \<open>timers\<close>: the timeouts scheduled and neither fired nor cleared, as (handle, deadline).
    The only callback this code ever schedules is the expiry callback \<open>expire\<close> below;
  \<^item> \<open>next_handle\<close>: the handle the next \<^verbatim>\<open>setTimeout\<close> returns;
  \<^item> \<open>rendered\<close>: the value of \<^verbatim>\<open>aiState\<close> at the last render, which is the dependency
    the \<^verbatim>\<open>useMemo\<close> of \<^verbatim>\<open>contextValue\<close> compares against (its other dependencies are
    the two stable callbacks and \<^verbatim>\<open>stateChecks\<close>, itself memoised on \<^verbatim>\<open>aiState\<close>);
  \<^item> \<open>subscribers\<close>: one entry per consumer of the context, listing the context values
    that consumer has been rendered with, oldest first.
\<close>

record store =
  aiState :: AiState
  timerRef :: "nat option"
  now :: nat
  timers :: "(nat \<times> nat) list"
  next_handle :: nat
  rendered :: AiState
  subscribers :: "AiStateContextType list list"

text \<open>The provider right after mounting, at time \<open>t\<close>, the host's next handle being \<open>h\<close>.\<close>

definition mount :: "nat \<Rightarrow> nat \<Rightarrow> store" where
  "mount t h =
     \<lparr> aiState = initialState, timerRef = None, now = t, timers = [], next_handle = h,
       rendered = initialState, subscribers = [] \<rparr>"

subsection \<open>Host timers\<close>

definition setTimeout :: "nat \<Rightarrow> store \<Rightarrow> nat \<times> store" where
  "setTimeout delay c =
     (next_handle c,
      c\<lparr> timers := timers c @ [(next_handle c, now c + delay)],
         next_handle := next_handle c + 1 \<rparr>)"

definition clearTimeout :: "nat \<Rightarrow> store \<Rightarrow> store" where
  "clearTimeout h c = c\<lparr> timers := filter (\<lambda>(h', d). h' \<noteq> h) (timers c) \<rparr>"

subsection \<open>The operations of the provider\<close>

definition setAiStateInternal :: "AiState \<Rightarrow> store \<Rightarrow> store" where
  "setAiStateInternal s c = c\<lparr> aiState := s \<rparr>"

text \<open>
  \<^verbatim>\<open>setAiState\<close>, branch by branch: a transient state is written, the old timer (if any) is
  cleared and a timer of 2000 ms is armed and stored in \<^verbatim>\<open>timerRef\<close>; any other state is
  written, and the old timer (if any) is cleared and \<^verbatim>\<open>timerRef\<close> reset to \<^verbatim>\<open>null\<close>.
\<close>

definition setAiState :: "AiState \<Rightarrow> store \<Rightarrow> store" where
  "setAiState newState c =
     (if newState = INTERRUPTED \<or> newState = WAITING then
        (let c1 = setAiStateInternal newState c;
             c2 = (case timerRef c1 of Some h \<Rightarrow> clearTimeout h c1 | None \<Rightarrow> c1);
             (h, c3) = setTimeout 2000 c2
         in c3\<lparr> timerRef := Some h \<rparr>)
      else
        (let c1 = setAiStateInternal newState c
         in (case timerRef c1 of
               Some h \<Rightarrow> (clearTimeout h c1)\<lparr> timerRef := None \<rparr>
             | None \<Rightarrow> c1)))"

definition resetState :: "store \<Rightarrow> store" where
  "resetState c = setAiState IDLE c"

text \<open>The callback handed to \<^verbatim>\<open>setTimeout\<close>.\<close>

definition expire :: "store \<Rightarrow> store" where
  "expire c = (setAiStateInternal IDLE c)\<lparr> timerRef := None \<rparr>"

text \<open>
  Letting \<open>dt\<close> milliseconds pass: every scheduled timeout whose deadline has been reached
  is taken off the schedule and its callback run, in the order they were scheduled (which
  is the order of their deadlines, every delay being the same).
\<close>

definition advance :: "nat \<Rightarrow> store \<Rightarrow> store" where
  "advance dt c =
     (let t = now c + dt;
          due = filter (\<lambda>(h, d). d \<le> t) (timers c);
          rest = filter (\<lambda>(h, d). \<not> d \<le> t) (timers c)
      in foldl (\<lambda>c' _. expire c') (c\<lparr> now := t, timers := rest \<rparr>) due)"

text \<open>The cleanup of the \<^verbatim>\<open>useEffect\<close>, run when the provider unmounts.\<close>

definition cleanup :: "store \<Rightarrow> store" where
  "cleanup c = (case timerRef c of Some h \<Rightarrow> clearTimeout h c | None \<Rightarrow> c)"

subsection \<open>Rendering and the consumers of the context\<close>

text \<open>
  A render of the provider. \<^verbatim>\<open>useMemo\<close> returns the object of the previous render when
  no dependency changed, and a context provider re-renders its consumers only when it is
  given a different object: so nothing reaches the consumers unless \<^verbatim>\<open>aiState\<close> differs
  from its value at the last render, and then each of them is rendered once with the new
  context value.
\<close>

definition render :: "store \<Rightarrow> store" where
  "render c =
     (if aiState c = rendered c then c
      else c\<lparr> rendered := aiState c,
              subscribers := map (\<lambda>l. l @ [contextValue (aiState c)]) (subscribers c) \<rparr>)"

text \<open>A consumer mounting under the provider is rendered with the current context value.\<close>

definition subscribe :: "store \<Rightarrow> store" where
  "subscribe c = c\<lparr> subscribers := subscribers c @ [[contextValue (rendered c)]] \<rparr>"

text \<open>
  \<^verbatim>\<open>createContext<AiStateContextType | null>(null)\<close>: a component reads the value of the
  nearest enclosing provider, or the default \<^verbatim>\<open>null\<close> when there is none. The argument is
  the enclosing provider, if any.
\<close>

definition useContext :: "store option \<Rightarrow> AiStateContextType option" where
  "useContext p = map_option (\<lambda>c. contextValue (rendered c)) p"

datatype error = Error string

definition useAiState :: "store option \<Rightarrow> error + AiStateContextType" where
  "useAiState p =
     (case useContext p of
        None \<Rightarrow> Inl (Error ''useAiState must be used within a AiStateProvider'')
      | Some context \<Rightarrow> Inr context)"

text \<open>
  A consumer changing the state: \<^verbatim>\<open>useAiState().setAiState(s)\<close>, the member \<^verbatim>\<open>setAiState\<close>
  of the context value being the \<open>setAiState\<close> of the enclosing provider. The result is the
  enclosing provider after the call, or the error thrown by the hook.
\<close>

definition consumer_setAiState :: "store option \<Rightarrow> AiState \<Rightarrow> error + store option" where
  "consumer_setAiState p s =
     (case useAiState p of
        Inl e \<Rightarrow> Inl e
      | Inr context \<Rightarrow> Inr (map_option (setAiState s) p))"

section \<open>Configurations the provider can be in\<close>

text \<open>The two states for which \<open>setAiState\<close> arms the timer.\<close>

definition transient :: "AiState \<Rightarrow> bool" where
  "transient s = (s = INTERRUPTED \<or> s = WAITING)"

text \<open>
  What a mounted provider does: it is mounted, a consumer calls \<^verbatim>\<open>setAiState\<close> or
  \<^verbatim>\<open>resetState\<close>, time passes (and due timers fire), the provider renders, a consumer
  mounts.
\<close>

inductive reachable :: "store \<Rightarrow> bool" where
  r_mount: "reachable (mount t h)"
| r_set: "reachable c \<Longrightarrow> reachable (setAiState s c)"
| r_reset: "reachable c \<Longrightarrow> reachable (resetState c)"
| r_advance: "reachable c \<Longrightarrow> reachable (advance dt c)"
| r_render: "reachable c \<Longrightarrow> reachable (render c)"
| r_subscribe: "reachable c \<Longrightarrow> reachable (subscribe c)"

text \<open>
  The invariant behind the timer discipline: either no handle is stored, nothing is
  scheduled and the state is not transient; or the stored handle is the one scheduled
  timeout, its deadline lies ahead by at most 2000 ms, and the state is transient.
\<close>

definition store_inv :: "store \<Rightarrow> bool" where
  "store_inv c =
     (case timerRef c of
        None \<Rightarrow> timers c = [] \<and> \<not> transient (aiState c)
      | Some h \<Rightarrow>
          (case timers c of
             [(h', d)] \<Rightarrow> h' = h \<and> now c < d \<and> d \<le> now c + 2000
           | _ \<Rightarrow> False) \<and> transient (aiState c))"

text \<open>
  The timer discipline as an observer states it: at most one timeout is scheduled, one is
  scheduled exactly when the state is transient, a handle is held exactly when the state
  is transient, and the handle held is that of the scheduled timeout.
\<close>

definition timer_discipline :: "store \<Rightarrow> bool" where
  "timer_discipline c =
     (length (timers c) \<le> 1 \<and>
      (timers c \<noteq> []) = (aiState c = INTERRUPTED \<or> aiState c = WAITING) \<and>
      (timerRef c \<noteq> None) = (aiState c = INTERRUPTED \<or> aiState c = WAITING) \<and>
      map fst (timers c) = (case timerRef c of None \<Rightarrow> [] | Some h \<Rightarrow> [h]))"

text \<open>The six derived predicates of a context value, in the order of the source.\<close>

definition predicates :: "'a StateChecks_scheme \<Rightarrow> bool list" where
  "predicates ch =
     [isIdle ch, isThinkingSpeaking ch, isInterrupted ch, isLoading ch, isListening ch,
      isWaiting ch]"

text \<open>
  What can be observed of a configuration from outside: the state, whether a timer handle
  is held, the deadlines scheduled, and the clock. Handles themselves are opaque.
\<close>

definition observable :: "store \<Rightarrow> AiState \<times> bool \<times> nat list \<times> nat" where
  "observable c = (aiState c, timerRef c \<noteq> None, map snd (timers c), now c)"

text \<open>
  The context values each consumer of \<open>c\<close> has received on the way from \<open>c\<close> to \<open>c'\<close>:
  one list per consumer, in the order of \<open>subscribers c\<close>.
\<close>

definition notified :: "store \<Rightarrow> store \<Rightarrow> AiStateContextType list list" where
  "notified c c' =
     map (\<lambda>(old, new). drop (length old) new) (zip (subscribers c) (subscribers c'))"

section \<open>How the operations act\<close>

lemma store_inv_cases:
  "store_inv c \<longleftrightarrow>
     (timerRef c = None \<and> timers c = [] \<and> \<not> transient (aiState c)) \<or>
     (\<exists>h d. timerRef c = Some h \<and> timers c = [(h, d)] \<and> now c < d \<and> d \<le> now c + 2000
        \<and> transient (aiState c))"
  by (auto simp: store_inv_def split: option.splits list.splits)

lemma setAiState_transient:
  assumes "store_inv c" "transient s"
  shows "setAiState s c =
           c\<lparr> aiState := s, timerRef := Some (next_handle c),
              timers := [(next_handle c, now c + 2000)], next_handle := next_handle c + 1 \<rparr>"
  using assms
  by (auto simp: store_inv_cases setAiState_def setAiStateInternal_def setTimeout_def
      clearTimeout_def transient_def)

lemma setAiState_stable:
  assumes "store_inv c" "\<not> transient s"
  shows "setAiState s c = c\<lparr> aiState := s, timerRef := None, timers := [] \<rparr>"
  using assms
  by (auto simp: store_inv_cases setAiState_def setAiStateInternal_def clearTimeout_def
      transient_def)

lemma advance_idle:
  assumes "timers c = []"
  shows "advance dt c = c\<lparr> now := now c + dt \<rparr>"
  using assms by (simp add: advance_def)

lemma advance_before:
  assumes "timers c = [(h, d)]" "now c + dt < d"
  shows "advance dt c = c\<lparr> now := now c + dt \<rparr>"
  using assms by (simp add: advance_def)

lemma advance_fires:
  assumes "timers c = [(h, d)]" "d \<le> now c + dt"
  shows "advance dt c = c\<lparr> aiState := IDLE, timerRef := None, now := now c + dt, timers := [] \<rparr>"
  using assms by (simp add: advance_def expire_def setAiStateInternal_def)

subsection \<open>The invariant holds of every reachable configuration\<close>

lemma store_inv_mount: "store_inv (mount t h)"
  by (simp add: store_inv_def mount_def initialState_def transient_def)

lemma store_inv_setAiState: "store_inv c \<Longrightarrow> store_inv (setAiState s c)"
  by (cases "transient s") (simp_all add: setAiState_transient setAiState_stable store_inv_def)

lemma store_inv_advance:
  assumes "store_inv c"
  shows "store_inv (advance dt c)"
proof -
  from assms [unfolded store_inv_cases] consider
    (idle) "timerRef c = None" "timers c = []" "\<not> transient (aiState c)"
  | (armed) h d where "timerRef c = Some h" "timers c = [(h, d)]" "now c < d"
      "d \<le> now c + 2000" "transient (aiState c)"
    by auto
  then show ?thesis
  proof cases
    case idle
    then show ?thesis by (simp add: advance_idle store_inv_def)
  next
    case armed
    show ?thesis
    proof (cases "d \<le> now c + dt")
      case True
      with armed show ?thesis by (simp add: advance_fires store_inv_def transient_def)
    next
      case False
      with armed show ?thesis by (simp add: advance_before store_inv_def)
    qed
  qed
qed

lemma store_inv_render: "store_inv c \<Longrightarrow> store_inv (render c)"
  by (auto simp: render_def store_inv_cases)

lemma store_inv_subscribe: "store_inv c \<Longrightarrow> store_inv (subscribe c)"
  by (simp add: subscribe_def store_inv_cases)

lemma reachable_store_inv: "reachable c \<Longrightarrow> store_inv c"
  by (induction rule: reachable.induct)
    (simp_all add: store_inv_mount store_inv_setAiState resetState_def store_inv_advance
      store_inv_render store_inv_subscribe)

subsection \<open>What \<open>setAiState\<close> and a render leave in place\<close>

lemma aiState_setAiState: "aiState (setAiState s c) = s"
  by (simp add: setAiState_def setAiStateInternal_def setTimeout_def clearTimeout_def Let_def
      split: option.splits)

lemma rendered_setAiState: "rendered (setAiState s c) = rendered c"
  by (simp add: setAiState_def setAiStateInternal_def setTimeout_def clearTimeout_def Let_def
      split: option.splits)

lemma subscribers_setAiState: "subscribers (setAiState s c) = subscribers c"
  by (simp add: setAiState_def setAiStateInternal_def setTimeout_def clearTimeout_def Let_def
      split: option.splits)

lemma rendered_render: "rendered (render c) = aiState c"
  by (simp add: render_def)

subsection \<open>Time passing\<close>

lemma foldl_expire_frame:
  "now (foldl (\<lambda>c' _. expire c') c xs) = now c \<and>
   next_handle (foldl (\<lambda>c' _. expire c') c xs) = next_handle c \<and>
   timers (foldl (\<lambda>c' _. expire c') c xs) = timers c \<and>
   rendered (foldl (\<lambda>c' _. expire c') c xs) = rendered c \<and>
   subscribers (foldl (\<lambda>c' _. expire c') c xs) = subscribers c"
  by (induction xs arbitrary: c) (simp_all add: expire_def setAiStateInternal_def)

lemma now_advance: "now (advance dt c) = now c + dt"
  by (simp add: advance_def Let_def foldl_expire_frame)

lemma next_handle_advance: "next_handle (advance dt c) = next_handle c"
  by (simp add: advance_def Let_def foldl_expire_frame)

lemma advance_after_transient:
  assumes "store_inv c" "transient s"
  shows "advance dt (setAiState s c) =
           (if dt < 2000
            then (setAiState s c)\<lparr> now := now c + dt \<rparr>
            else (setAiState s c)\<lparr> aiState := IDLE, timerRef := None, now := now c + dt,
                                   timers := [] \<rparr>)"
proof -
  let ?c' = "setAiState s c"
  have t: "timers ?c' = [(next_handle c, now c + 2000)]" and n: "now ?c' = now c"
    by (simp_all add: setAiState_transient [OF assms])
  show ?thesis
  proof (cases "dt < 2000")
    case True
    then have "now ?c' + dt < now c + 2000" by (simp add: n)
    from advance_before [OF t this] True show ?thesis by (simp add: n)
  next
    case False
    then have "now c + 2000 \<le> now ?c' + dt" by (simp add: n)
    from advance_fires [OF t this] False show ?thesis by (simp add: n)
  qed
qed

lemma advance_after_stable:
  assumes "store_inv c" "\<not> transient s"
  shows "advance dt (setAiState s c) = (setAiState s c)\<lparr> now := now c + dt \<rparr>"
proof -
  have "timers (setAiState s c) = []" "now (setAiState s c) = now c"
    by (simp_all add: setAiState_stable [OF assms])
  then show ?thesis by (simp add: advance_idle)
qed

lemma store_inv_timer_discipline: "store_inv c \<Longrightarrow> timer_discipline c"
  by (auto simp: store_inv_cases timer_discipline_def transient_def)

subsection \<open>What an observer sees after a call\<close>

lemma observable_setAiState:
  assumes "store_inv c"
  shows "observable (setAiState s c) =
           (s, transient s, if transient s then [now c + 2000] else [], now c)"
  by (cases "transient s")
    (simp_all add: observable_def setAiState_transient [OF assms] setAiState_stable [OF assms])

lemma observable_advance_setAiState:
  assumes "store_inv c"
  shows "observable (advance dt (setAiState s c)) =
           (if transient s \<and> 2000 \<le> dt then (IDLE, False, [], now c + dt)
            else (s, transient s, if transient s then [now c + 2000] else [], now c + dt))"
proof (cases "transient s")
  case True
  show ?thesis
    unfolding advance_after_transient [OF assms True]
    using True by (simp add: observable_def setAiState_transient [OF assms True])
next
  case False
  show ?thesis
    unfolding advance_after_stable [OF assms False]
    using False by (simp add: observable_def setAiState_stable [OF assms False])
qed

subsection \<open>Notifications\<close>

lemma notified_unchanged:
  "map (\<lambda>(old, new). drop (length old) new) (zip xs xs) = replicate (length xs) []"
  by (induction xs) simp_all

lemma notified_appended:
  "map (\<lambda>(old, new). drop (length old) new) (zip xs (map (\<lambda>l. l @ [v]) xs)) =
     replicate (length xs) [v]"
  by (induction xs) simp_all

subsection \<open>Unmounting\<close>

lemma cleanup_clears_schedule: "reachable c \<Longrightarrow> timers (cleanup c) = []"
  by (drule reachable_store_inv) (auto simp: store_inv_cases cleanup_def clearTimeout_def)

section \<open>Properties of the store\<close>

text \<open>
  C1. For every state \<open>s\<close> and every configuration \<open>c\<close> (whatever its state, whatever
  timer is pending), after \<open>setAiState s\<close> the provider's state is \<open>s\<close>; and a consumer
  reading the context after the provider has rendered gets the context value of \<open>s\<close>,
  whose state member is \<open>s\<close>.
\<close>

theorem set_then_get:
  "aiState (setAiState s c) = s \<and>
   useAiState (Some (render (setAiState s c))) = Inr (contextValue s) \<and>
   ctx_aiState (contextValue s) = s"
  by (simp add: aiState_setAiState rendered_render useAiState_def useContext_def
      contextValue_def Let_def)

text \<open>
  C2. From any reachable configuration, after \<open>setAiState INTERRUPTED\<close> or
  \<open>setAiState WAITING\<close> and no further call, the state is still the transient state as
  long as fewer than 2000 ms have passed and is \<open>IDLE\<close> once 2000 ms have passed; by then
  the timer handle is cleared and nothing is scheduled any more.
\<close>

theorem transient_expires:
  assumes "reachable c" and "s = INTERRUPTED \<or> s = WAITING"
  shows "aiState (advance dt (setAiState s c)) = (if dt < 2000 then s else IDLE) \<and>
         (2000 \<le> dt \<longrightarrow>
            timerRef (advance dt (setAiState s c)) = None \<and>
            timers (advance dt (setAiState s c)) = [])"
proof -
  have inv: "store_inv c" using assms(1) by (rule reachable_store_inv)
  have tr: "transient s" using assms(2) by (simp add: transient_def)
  let ?c' = "setAiState s c"
  have t: "timers ?c' = [(next_handle c, now c + 2000)]" and n: "now ?c' = now c"
    and a: "aiState ?c' = s"
    by (simp_all add: setAiState_transient [OF inv tr])
  show ?thesis
  proof (cases "dt < 2000")
    case True
    then have "now ?c' + dt < now c + 2000" by (simp add: n)
    from advance_before [OF t this] True a show ?thesis by simp
  next
    case False
    then have "now c + 2000 \<le> now ?c' + dt" by (simp add: n)
    from advance_fires [OF t this] False show ?thesis by simp
  qed
qed

theorem transient_expires_witness:
  "reachable (mount 0 1) \<and>
   aiState (advance 2000 (setAiState INTERRUPTED (mount 0 1))) = IDLE \<and>
   timerRef (advance 2000 (setAiState INTERRUPTED (mount 0 1))) = None \<and>
   aiState (advance 1999 (setAiState WAITING (mount 0 1))) = WAITING"
  using transient_expires [where c = "mount 0 1" and s = INTERRUPTED and dt = 2000]
    transient_expires [where c = "mount 0 1" and s = WAITING and dt = 1999] r_mount [of 0 1]
  by simp

text \<open>
  C3, as amended. From any reachable configuration, after a transient state \<open>s1\<close> is set
  (\<open>WAITING\<close> in the claim) and another state \<open>s2\<close> is set less than 2000 ms later, the
  timeout armed by the first call is off the schedule, so it never fires. If \<open>s2\<close> is not
  transient, the state is \<open>s2\<close> at every later time. If \<open>s2\<close> is itself transient, the
  second call has armed a timeout of its own: the state is \<open>s2\<close> until 2000 ms after the
  second call, and \<open>IDLE\<close> from then on.
\<close>

theorem superseded_timer_never_fires:
  assumes "reachable c" and "s1 = INTERRUPTED \<or> s1 = WAITING" and "d1 < 2000"
  shows "aiState (advance dt (setAiState s2 (advance d1 (setAiState s1 c)))) =
           (if transient s2 \<and> 2000 \<le> dt then IDLE else s2) \<and>
         map fst (timers (setAiState s1 c)) = [next_handle c] \<and>
         map fst (timers (setAiState s2 (advance d1 (setAiState s1 c)))) =
           (if transient s2 then [next_handle c + 1] else [])"
proof -
  have inv: "store_inv c" using assms(1) by (rule reachable_store_inv)
  have tr: "transient s1" using assms(2) by (simp add: transient_def)
  let ?c1 = "advance d1 (setAiState s1 c)"
  have inv1: "store_inv ?c1"
    by (intro store_inv_advance store_inv_setAiState inv)
  have nh: "next_handle ?c1 = next_handle c + 1"
    by (simp add: next_handle_advance setAiState_transient [OF inv tr])
  have first: "map fst (timers (setAiState s1 c)) = [next_handle c]"
    by (simp add: setAiState_transient [OF inv tr])
  show ?thesis
  proof (cases "transient s2")
    case True
    have "aiState (advance dt (setAiState s2 ?c1)) = (if 2000 \<le> dt then IDLE else s2)"
      by (simp add: advance_after_transient [OF inv1 True] aiState_setAiState)
    moreover have "map fst (timers (setAiState s2 ?c1)) = [next_handle c + 1]"
      by (simp add: setAiState_transient [OF inv1 True] nh)
    ultimately show ?thesis using True first by simp
  next
    case False
    have "aiState (advance dt (setAiState s2 ?c1)) = s2"
      by (simp add: advance_after_stable [OF inv1 False] aiState_setAiState)
    moreover have "map fst (timers (setAiState s2 ?c1)) = []"
      by (simp add: setAiState_stable [OF inv1 False])
    ultimately show ?thesis using False first by simp
  qed
qed

theorem superseded_timer_never_fires_witness:
  "reachable (mount 0 1) \<and> (500::nat) < 2000 \<and>
   aiState (advance 1600 (setAiState LISTENING (advance 500 (setAiState WAITING (mount 0 1)))))
     = LISTENING \<and>
   aiState (advance 1600 (setAiState INTERRUPTED (advance 500 (setAiState WAITING (mount 0 1)))))
     = INTERRUPTED"
  using superseded_timer_never_fires
          [where c = "mount 0 1" and ?s1.0 = WAITING and ?d1.0 = 500 and ?s2.0 = LISTENING
             and dt = 1600]
        superseded_timer_never_fires
          [where c = "mount 0 1" and ?s1.0 = WAITING and ?d1.0 = 500 and ?s2.0 = INTERRUPTED
             and dt = 1600]
        r_mount [of 0 1]
  by (simp add: transient_def)

text \<open>
  The claim as stated, for every \<open>s2\<close>, fails for a transient \<open>s2\<close>: \<open>WAITING\<close> is set at
  time 0, \<open>INTERRUPTED\<close> at time 500, and at time 3000, past the first deadline of 2000, the
  state is \<open>IDLE\<close> and not \<open>INTERRUPTED\<close>: the timer of the second call ran out at 2500.
\<close>

theorem second_transient_expires_counterexample:
  "aiState (advance 2500 (setAiState INTERRUPTED (advance 500 (setAiState WAITING (mount 0 1)))))
     = IDLE \<and>
   aiState (advance 2500 (setAiState INTERRUPTED (advance 500 (setAiState WAITING (mount 0 1)))))
     \<noteq> INTERRUPTED \<and>
   now (advance 2500 (setAiState INTERRUPTED (advance 500 (setAiState WAITING (mount 0 1)))))
     = 3000"
  by code_simp

text \<open>
  C4, as amended. From any reachable configuration, \<open>INTERRUPTED\<close> is set, and set again
  1500 ms later. Then \<open>dt\<close> ms after the second call the state is \<open>INTERRUPTED\<close> when
  \<open>dt < 2000\<close> and \<open>IDLE\<close> otherwise. With the first call at time 0: still \<open>INTERRUPTED\<close>
  at 2900 and at 3000, and \<open>IDLE\<close> at 3500, which is 2000 ms after the second call.
\<close>

theorem reentry_resets_window:
  assumes "reachable c"
  shows "aiState (advance dt (setAiState INTERRUPTED (advance 1500 (setAiState INTERRUPTED c))))
           = (if dt < 2000 then INTERRUPTED else IDLE) \<and>
         now (advance dt (setAiState INTERRUPTED (advance 1500 (setAiState INTERRUPTED c))))
           = now c + 1500 + dt"
proof -
  have inv: "store_inv c" using assms(1) by (rule reachable_store_inv)
  have tr: "transient INTERRUPTED" by (simp add: transient_def)
  let ?c1 = "advance 1500 (setAiState INTERRUPTED c)"
  have inv1: "store_inv ?c1"
    by (intro store_inv_advance store_inv_setAiState inv)
  have n1: "now ?c1 = now c + 1500"
    by (simp add: now_advance setAiState_transient [OF inv tr])
  show ?thesis
    by (simp add: advance_after_transient [OF inv1 tr] aiState_setAiState n1)
qed

theorem reentry_resets_window_witness:
  "reachable (mount 0 1) \<and>
   aiState (advance 1400 (setAiState INTERRUPTED (advance 1500 (setAiState INTERRUPTED (mount 0 1)))))
     = INTERRUPTED \<and>
   now (advance 1400 (setAiState INTERRUPTED (advance 1500 (setAiState INTERRUPTED (mount 0 1)))))
     = 2900 \<and>
   aiState (advance 2000 (setAiState INTERRUPTED (advance 1500 (setAiState INTERRUPTED (mount 0 1)))))
     = IDLE \<and>
   now (advance 2000 (setAiState INTERRUPTED (advance 1500 (setAiState INTERRUPTED (mount 0 1)))))
     = 3500"
  using reentry_resets_window [where c = "mount 0 1" and dt = 1400]
        reentry_resets_window [where c = "mount 0 1" and dt = 2000]
        r_mount [of 0 1]
  by (simp add: mount_def)

text \<open>
  The claim as stated has the state \<open>IDLE\<close> at time 3000; there it is \<open>INTERRUPTED\<close>, the
  second deadline being 1500 + 2000 = 3500.
\<close>

theorem still_interrupted_at_3000_counterexample:
  "now (advance 1500 (setAiState INTERRUPTED (advance 1500 (setAiState INTERRUPTED (mount 0 1)))))
     = 3000 \<and>
   aiState (advance 1500 (setAiState INTERRUPTED (advance 1500 (setAiState INTERRUPTED (mount 0 1)))))
     = INTERRUPTED \<and>
   aiState (advance 1500 (setAiState INTERRUPTED (advance 1500 (setAiState INTERRUPTED (mount 0 1)))))
     \<noteq> IDLE"
  by code_simp

text \<open>
  C5. In every reachable configuration at most one timeout is scheduled, one is scheduled
  if and only if the state is \<open>INTERRUPTED\<close> or \<open>WAITING\<close>, and \<^verbatim>\<open>timerRef\<close> holds
  its handle (and holds none otherwise); the same is true again after any further call
  of \<open>setAiState\<close> or \<open>resetState\<close> and after any amount of time has passed, timers
  firing on the way.
\<close>

theorem one_timer_iff_transient:
  assumes "reachable c"
  shows "timer_discipline c \<and> timer_discipline (setAiState s c) \<and>
         timer_discipline (resetState c) \<and> timer_discipline (advance dt c)"
proof -
  have "store_inv c" using assms by (rule reachable_store_inv)
  then show ?thesis
    by (simp add: store_inv_timer_discipline store_inv_setAiState store_inv_advance
        resetState_def)
qed

theorem one_timer_iff_transient_witness:
  "reachable (setAiState WAITING (setAiState INTERRUPTED (mount 0 1))) \<and>
   timers (setAiState WAITING (setAiState INTERRUPTED (mount 0 1))) = [(2, 2000)] \<and>
   timerRef (setAiState WAITING (setAiState INTERRUPTED (mount 0 1))) = Some 2 \<and>
   aiState (setAiState WAITING (setAiState INTERRUPTED (mount 0 1))) = WAITING \<and>
   timer_discipline (setAiState WAITING (setAiState INTERRUPTED (mount 0 1)))"
proof -
  have r: "reachable (setAiState WAITING (setAiState INTERRUPTED (mount 0 1)))"
    by (intro r_set r_mount)
  have t: "timers (setAiState WAITING (setAiState INTERRUPTED (mount 0 1))) = [(2, 2000)]"
    "timerRef (setAiState WAITING (setAiState INTERRUPTED (mount 0 1))) = Some 2"
    "aiState (setAiState WAITING (setAiState INTERRUPTED (mount 0 1))) = WAITING"
    by (simp_all add: setAiState_def setAiStateInternal_def setTimeout_def clearTimeout_def
        mount_def Let_def)
  from one_timer_iff_transient [OF r] r t show ?thesis by blast
qed

text \<open>
  C6. For every state \<open>s\<close> and every configuration, after \<open>setAiState s\<close> the six derived
  predicates are, in order, the comparisons of \<open>s\<close> with the six variants: exactly one of
  them is true, the one matching \<open>s\<close>. The context value carries the same six.
\<close>

theorem exactly_one_predicate:
  "predicates (stateChecks (aiState (setAiState s c))) =
     [s = IDLE, s = THINKING_SPEAKING, s = INTERRUPTED, s = LOADING, s = LISTENING, s = WAITING] \<and>
   length (filter id (predicates (stateChecks (aiState (setAiState s c))))) = 1 \<and>
   predicates (contextValue (aiState (setAiState s c))) =
     predicates (stateChecks (aiState (setAiState s c)))"
  by (cases s) (simp_all add: aiState_setAiState predicates_def stateChecks_def
      contextValue_def Let_def)

text \<open>
  C7. \<open>resetState\<close> is \<open>setAiState IDLE\<close>: from every reachable configuration, whatever
  its state and whether or not a timer is pending, it leaves the configuration that
  \<open>setAiState IDLE\<close> leaves, in which the state is \<open>IDLE\<close>, no handle is held and nothing is
  scheduled, so that the state stays \<open>IDLE\<close> however much time passes.
\<close>

theorem reset_is_set_idle:
  assumes "reachable c"
  shows "resetState c = setAiState IDLE c \<and>
         aiState (resetState c) = IDLE \<and>
         timerRef (resetState c) = None \<and>
         timers (resetState c) = [] \<and>
         (\<forall>dt. aiState (advance dt (resetState c)) = IDLE)"
proof -
  have inv: "store_inv c" using assms by (rule reachable_store_inv)
  have st: "\<not> transient IDLE" by (simp add: transient_def)
  have later: "aiState (advance dt (setAiState IDLE c)) = IDLE" for dt
    by (simp add: advance_after_stable [OF inv st] aiState_setAiState)
  have "timerRef (setAiState IDLE c) = None" "timers (setAiState IDLE c) = []"
    by (simp_all add: setAiState_stable [OF inv st])
  with later show ?thesis
    by (simp add: resetState_def aiState_setAiState)
qed

theorem reset_is_set_idle_witness:
  "reachable (setAiState WAITING (mount 0 1)) \<and>
   timers (setAiState WAITING (mount 0 1)) = [(1, 2000)] \<and>
   aiState (resetState (setAiState WAITING (mount 0 1))) = IDLE \<and>
   timers (resetState (setAiState WAITING (mount 0 1))) = [] \<and>
   aiState (advance 5000 (resetState (setAiState WAITING (mount 0 1)))) = IDLE"
proof -
  have r: "reachable (setAiState WAITING (mount 0 1))"
    by (intro r_set r_mount)
  have t: "timers (setAiState WAITING (mount 0 1)) = [(1, 2000)]"
    by (simp add: setAiState_def setAiStateInternal_def setTimeout_def clearTimeout_def
        mount_def Let_def)
  from reset_is_set_idle [OF r] r t show ?thesis by blast
qed

text \<open>
  C8, as amended. A call \<open>setAiState s\<close> followed by a render of the provider gives every
  consumer registered before the call exactly one notification, carrying the context
  value of \<open>s\<close>, when \<open>s\<close> differs from the state of the previous render; when \<open>s\<close> is
  the state of the previous render, the memoised context value is the same object and
  no consumer is notified.
\<close>

theorem one_notification_per_change:
  "notified c (render (setAiState s c)) =
     replicate (length (subscribers c)) (if s = rendered c then [] else [contextValue s])"
  by (simp add: notified_def render_def aiState_setAiState rendered_setAiState
      subscribers_setAiState notified_unchanged notified_appended)

text \<open>
  The claim as stated promises one notification also when the new state equals the
  current one. One consumer is mounted under a freshly mounted provider, whose state is
  \<open>LOADING\<close>; after \<open>setAiState LOADING\<close> and a render it has received nothing.
\<close>

theorem same_state_not_notified_counterexample:
  "subscribers (subscribe (mount 0 1)) = [[contextValue LOADING]] \<and>
   notified (subscribe (mount 0 1)) (render (setAiState LOADING (subscribe (mount 0 1)))) = [[]]"
  by (simp add: notified_def render_def subscribe_def mount_def initialState_def
      setAiState_def setAiStateInternal_def)

text \<open>
  C9. Outside a provider the hook fails at once with the one error the code throws, whether
  the consumer wants to read the state or to change it, and no default value is returned.
  Under a provider the hook returns the context value, and changing the state succeeds
  for every state \<open>s\<close>.
\<close>

theorem useAiState_outside_provider:
  "useAiState None = Inl (Error ''useAiState must be used within a AiStateProvider'') \<and>
   consumer_setAiState None s =
     Inl (Error ''useAiState must be used within a AiStateProvider'') \<and>
   useAiState (Some c) = Inr (contextValue (rendered c)) \<and>
   consumer_setAiState (Some c) s = Inr (Some (setAiState s c))"
  by (simp add: useAiState_def useContext_def consumer_setAiState_def)

text \<open>
  C10. From every reachable configuration and for all states \<open>s1\<close> and \<open>s2\<close>, setting
  \<open>s1\<close> and at once \<open>s2\<close> leaves what setting \<open>s2\<close> alone leaves, as far as can be
  observed: the state is \<open>s2\<close>, a timer handle is held if and only if \<open>s2\<close> is
  \<open>INTERRUPTED\<close> or \<open>WAITING\<close>, and then the one scheduled deadline is 2000 ms after the
  call. The two configurations also stay indistinguishable as time passes.
\<close>

theorem last_write_wins:
  assumes "reachable c"
  shows "observable (setAiState s2 (setAiState s1 c)) = observable (setAiState s2 c) \<and>
         aiState (setAiState s2 (setAiState s1 c)) = s2 \<and>
         (timerRef (setAiState s2 (setAiState s1 c)) \<noteq> None) = (s2 = INTERRUPTED \<or> s2 = WAITING) \<and>
         map snd (timers (setAiState s2 (setAiState s1 c))) =
           (if s2 = INTERRUPTED \<or> s2 = WAITING then [now c + 2000] else []) \<and>
         (\<forall>dt. observable (advance dt (setAiState s2 (setAiState s1 c))) =
               observable (advance dt (setAiState s2 c)))"
proof -
  have inv: "store_inv c" using assms by (rule reachable_store_inv)
  have inv1: "store_inv (setAiState s1 c)" using inv by (rule store_inv_setAiState)
  have n1: "now (setAiState s1 c) = now c"
    by (cases "transient s1") (simp_all add: setAiState_transient [OF inv] setAiState_stable [OF inv])
  have o2: "observable (setAiState s2 (setAiState s1 c)) =
          (s2, transient s2, if transient s2 then [now c + 2000] else [], now c)"
    using observable_setAiState [OF inv1, of s2] by (simp add: n1)
  have same: "observable (setAiState s2 (setAiState s1 c)) = observable (setAiState s2 c)"
    unfolding o2 by (simp add: observable_setAiState [OF inv])
  have armed: "(timerRef (setAiState s2 (setAiState s1 c)) \<noteq> None) = transient s2"
    and deadline: "map snd (timers (setAiState s2 (setAiState s1 c))) =
      (if transient s2 then [now c + 2000] else [])"
    using o2 by (simp_all add: observable_def)
  have later: "observable (advance dt (setAiState s2 (setAiState s1 c))) =
      observable (advance dt (setAiState s2 c))" for dt
    by (simp add: observable_advance_setAiState [OF inv1] observable_advance_setAiState [OF inv] n1)
  from same armed deadline later show ?thesis
    by (simp add: aiState_setAiState transient_def)
qed

theorem last_write_wins_witness:
  "reachable (mount 0 1) \<and>
   observable (setAiState WAITING (setAiState INTERRUPTED (mount 0 1))) =
     (WAITING, True, [2000], 0) \<and>
   observable (setAiState WAITING (mount 0 1)) = (WAITING, True, [2000], 0) \<and>
   timers (setAiState WAITING (setAiState INTERRUPTED (mount 0 1))) = [(2, 2000)] \<and>
   timers (setAiState WAITING (mount 0 1)) = [(1, 2000)]"
proof -
  have t: "timers (setAiState WAITING (setAiState INTERRUPTED (mount 0 1))) = [(2, 2000)]"
    "timers (setAiState WAITING (mount 0 1)) = [(1, 2000)]"
    "observable (setAiState WAITING (mount 0 1)) = (WAITING, True, [2000], 0)"
    by (simp_all add: setAiState_def setAiStateInternal_def setTimeout_def clearTimeout_def
        mount_def Let_def observable_def)
  from last_write_wins [where c = "mount 0 1" and ?s1.0 = INTERRUPTED and ?s2.0 = WAITING]
    r_mount [of 0 1] t show ?thesis by simp
qed

end
